theory Spec2Isabelle
  imports Complex_Main "HOL-Library.Multiset"
begin

section \<open>Data model\<close>

text \<open>
  The frontend works on plain JavaScript objects.  A field that is absent, \<open>undefined\<close> or
  \<open>null\<close> is \<open>None\<close>.  Strings are lists of code units; the model covers the code units
  below 256 (Latin-1), where \<open>toLowerCase\<close> maps one code unit to one code unit.
  Declared confidences are integer scores, so their sum is exact in a JavaScript number.
\<close>

record vresult =
  claim :: string
  status :: string

record entry =
  model :: "string option"
  average_rank :: "real option"
  confidence :: "int option"
  factual_claims :: "string list option"

section \<open>String primitives\<close>

definition toLowerChar :: "char \<Rightarrow> char" where
  "toLowerChar c =
     (let n = (of_char c :: nat)
      in if (65 \<le> n \<and> n \<le> 90) \<or> (192 \<le> n \<and> n \<le> 214) \<or> (216 \<le> n \<and> n \<le> 222)
         then char_of (n + 32) else c)"

definition toLowerCase :: "string \<Rightarrow> string" where
  "toLowerCase s = map toLowerChar s"

text \<open>The class \<open>\w\<close> of a regular expression without the unicode flag.\<close>

definition isWordChar :: "char \<Rightarrow> bool" where
  "isWordChar c =
     (let n = (of_char c :: nat)
      in (48 \<le> n \<and> n \<le> 57) \<or> (65 \<le> n \<and> n \<le> 90) \<or> n = 95 \<or> (97 \<le> n \<and> n \<le> 122))"

text \<open>The class \<open>\s\<close>, which is also what \<open>trim\<close> removes.\<close>

definition isSpaceChar :: "char \<Rightarrow> bool" where
  "isSpaceChar c = (let n = (of_char c :: nat) in (9 \<le> n \<and> n \<le> 13) \<or> n = 32 \<or> n = 160)"

definition trim :: "string \<Rightarrow> string" where
  "trim s = rev (dropWhile isSpaceChar (rev (dropWhile isSpaceChar s)))"

text \<open>\<open>str.toLowerCase().replace(/[^\w\s]/g, '').trim()\<close>\<close>

definition normalize :: "string \<Rightarrow> string" where
  "normalize str = trim (filter (\<lambda>c. isWordChar c \<or> isSpaceChar c) (toLowerCase str))"

section \<open>Array helpers\<close>

text \<open>\<open>[...new Set(flat)]\<close>: the distinct elements in order of first occurrence.\<close>

definition uniqueOf :: "'a list \<Rightarrow> 'a list" where
  "uniqueOf xs = foldl (\<lambda>seen x. if x \<in> set seen then seen else seen @ [x]) [] xs"

text \<open>\<open>stage1.map((r) => Array.isArray(r.factual_claims) ? r.factual_claims.map(normalize) : [])\<close>\<close>

definition allClaimsOf :: "entry list \<Rightarrow> string list list" where
  "allClaimsOf stage1 =
     map (\<lambda>r. case factual_claims r of Some cs \<Rightarrow> map normalize cs | None \<Rightarrow> []) stage1"

text \<open>\<open>stage1.map((r) => r.confidence).filter((v) => v != null)\<close>\<close>

definition confidencesOf :: "entry list \<Rightarrow> int list" where
  "confidencesOf stage1 = map the (filter (\<lambda>v. v \<noteq> None) (map confidence stage1))"

text \<open>Claims shared by at least two models.\<close>

definition overlappingOf :: "string list list \<Rightarrow> string list \<Rightarrow> string list" where
  "overlappingOf allClaims unique =
     filter (\<lambda>c. length (filter (\<lambda>l. c \<in> set l) allClaims) \<ge> 2) unique"

section \<open>calcPeerAlignment\<close>

definition calcPeerAlignment :: "entry list option \<Rightarrow> string" where
  "calcPeerAlignment stage1opt =
     (case stage1opt of
        None \<Rightarrow> ''Unknown''
      | Some stage1 \<Rightarrow>
          if length stage1 < 2 then ''Unknown''
          else
            let allClaims = allClaimsOf stage1;
                flat = concat allClaims;
                unique = uniqueOf flat
            in if length unique > 0 then
                 let overlapping = overlappingOf allClaims unique;
                     overlapRatio = real (length overlapping) / real (length unique)
                 in if overlapRatio \<ge> 0.5 then ''Unanimous''
                    else if overlapRatio \<ge> 0.2 then ''Majority''
                    else ''Split''
               else
                 let confidences = confidencesOf stage1
                 in if length confidences = 0 then ''Unknown''
                    else
                      let spread = Max (set confidences) - Min (set confidences)
                      in if spread \<le> 15 then ''Unanimous''
                         else if spread \<le> 30 then ''Majority''
                         else ''Split'')"

section \<open>calcVerdict\<close>

text \<open>
  Step 1, external evidence.  \<open>Some v\<close> is an early \<open>return v\<close>; \<open>None\<close> is falling through
  to step 2.
\<close>

definition isActionable :: "vresult \<Rightarrow> bool" where
  "isActionable r =
     (status r = ''VERIFIED'' \<or> status r = ''CONTRADICTED'' \<or> status r = ''CONTESTED'')"

definition externalEvidence :: "vresult list option \<Rightarrow> string option" where
  "externalEvidence stage25opt =
     (case stage25opt of
        None \<Rightarrow> None
      | Some stage25 \<Rightarrow>
          if length stage25 > 0 then
            if list_ex (\<lambda>r. status r = ''CONTRADICTED'') stage25 then Some ''Disputed''
            else
              let actionable = filter isActionable stage25
              in if length actionable > 0 \<and> list_all (\<lambda>r. status r = ''VERIFIED'') actionable
                 then Some ''Verified''
                 else None
          else None)"

text \<open>The mean of the declared confidences, \<open>null\<close> when none is declared.\<close>

definition avgConfOf :: "entry list \<Rightarrow> real option" where
  "avgConfOf stage1 =
     (let confidences = confidencesOf stage1
      in if length confidences > 0
         then Some (real_of_int (foldl (\<lambda>sum v. sum + v) 0 confidences) / real (length confidences))
         else None)"

text \<open>Step 2, factual consensus.\<close>

definition factualConsensus :: "entry list option \<Rightarrow> string" where
  "factualConsensus stage1opt =
     (case stage1opt of
        None \<Rightarrow> ''Unknown''
      | Some stage1 \<Rightarrow>
          if length stage1 = 0 then ''Unknown''
          else
            let avgConf = avgConfOf stage1
            in if avgConf \<noteq> None \<and> the avgConf < 50 then ''Uncertain''
               else
                 let allClaims = allClaimsOf stage1
                 in if list_all (\<lambda>l. length l = 0) allClaims then
                      (if avgConf \<noteq> None \<and> the avgConf \<ge> 65 then ''Consensus'' else ''Split'')
                    else
                      let flat = concat allClaims;
                          unique = uniqueOf flat;
                          overlapping = overlappingOf allClaims unique;
                          overlapRatio = real (length overlapping) / real (length unique)
                      in if overlapRatio \<ge> 0.5 \<and> avgConf \<noteq> None \<and> the avgConf \<ge> 65
                         then ''Consensus''
                         else if avgConf \<noteq> None \<and> the avgConf < 55 then ''Uncertain''
                         else ''Split'')"

definition calcVerdict :: "vresult list option \<Rightarrow> entry list option \<Rightarrow> string" where
  "calcVerdict stage25 stage1 =
     (case externalEvidence stage25 of
        Some v \<Rightarrow> v
      | None \<Rightarrow> factualConsensus stage1)"

section \<open>annotateChairmanText\<close>

text \<open>
  \<open>.map((r, idx) => ({ ...r, originalIdx: idx }))\<close> copies each result into a new object
  with one more field.
\<close>

record item = vresult +
  originalIdx :: nat

text \<open>An entry of \<open>replacements\<close>; \<open>endpos\<close> and \<open>markerStatus\<close> are \<open>end\<close> and \<open>status\<close> there.\<close>

record replacement =
  start :: nat
  endpos :: nat
  claimIdx :: nat
  markerStatus :: string

definition actionableOf :: "vresult list \<Rightarrow> item list" where
  "actionableOf stage25Results =
     filter (\<lambda>r. status r \<in> set [''VERIFIED'', ''CONTRADICTED'', ''CONTESTED''])
       (map (\<lambda>(idx, r). \<lparr>claim = claim r, status = status r, originalIdx = idx\<rparr>)
          (enumerate 0 stage25Results))"

text \<open>
  \<open>actionable.sort((a, b) => b.claim.length - a.claim.length)\<close>.  \<open>Array.prototype.sort\<close> is
  stable, and the comparator orders by the key \<open>-claim.length\<close>; \<open>sort_key\<close> is the stable
  insertion sort by a key.
\<close>

definition sortByClaimLength :: "item list \<Rightarrow> item list" where
  "sortByClaimLength actionable = sort_key (\<lambda>a. - int (length (claim a))) actionable"

text \<open>\<open>replacements.sort((a, b) => b.start - a.start)\<close>\<close>

definition sortByStartDesc :: "replacement list \<Rightarrow> replacement list" where
  "sortByStartDesc replacements = sort_key (\<lambda>a. - int (start a)) replacements"

text \<open>
  \<open>String.prototype.indexOf(searchString, position)\<close>: the search starts at
  \<open>min(position, length)\<close> and returns the least index at which \<open>searchString\<close> stands;
  \<open>None\<close> is the result \<open>-1\<close>.
\<close>

function searchFrom :: "string \<Rightarrow> string \<Rightarrow> nat \<Rightarrow> nat option" where
  "searchFrom s pat k =
     (if length s < k + length pat then None
      else if take (length pat) (drop k s) = pat then Some k
      else searchFrom s pat (Suc k))"
  by pat_completeness auto
termination
proof (relation "measure (\<lambda>(s, pat, k). length s - k)")
  show "wf (measure (\<lambda>(s, pat, k). length s - k))" by simp
next
  fix s pat :: string and k :: nat
  assume a: "\<not> length s < k + length pat" and b: "take (length pat) (drop k s) \<noteq> pat"
  have "k < length s"
  proof (rule ccontr)
    assume "\<not> k < length s"
    with a have "length pat = 0" by arith
    then have "pat = []" by simp
    with b show False by simp
  qed
  then show "((s, pat, Suc k), (s, pat, k)) \<in> measure (\<lambda>(s, pat, k). length s - k)"
    by simp
qed

definition indexOf :: "string \<Rightarrow> string \<Rightarrow> nat \<Rightarrow> nat option" where
  "indexOf s searchString position = searchFrom s searchString (min position (length s))"

text \<open>\<open>used.some(([s, e]) => found < e && end > s)\<close>\<close>

definition overlapsUsed :: "(nat \<times> nat) list \<Rightarrow> nat \<Rightarrow> nat \<Rightarrow> bool" where
  "overlapsUsed used found endp = list_ex (\<lambda>(s, e). found < e \<and> endp > s) used"

lemma searchFrom_Some_bounds:
  "searchFrom s pat k = Some f \<Longrightarrow> k \<le> f \<and> f + length pat \<le> length s"
proof (induction s pat k rule: searchFrom.induct)
  case (1 s pat k)
  show ?case
  proof (cases "length s < k + length pat")
    case True
    with "1.prems" show ?thesis by simp
  next
    case False
    show ?thesis
    proof (cases "take (length pat) (drop k s) = pat")
      case True
      with False "1.prems" show ?thesis by simp
    next
      case nomatch: False
      with False "1.prems" have "searchFrom s pat (Suc k) = Some f" by simp
      with "1.IH" [OF False nomatch] show ?thesis by simp
    qed
  qed
qed

text \<open>
  The body of the \<open>for\<close> loop up to the end of its \<open>while\<close> loop, for one claim: the guard
  \<open>if (!claimLower) continue\<close>, then the search from \<open>pos\<close>.  The guard does not change during
  the loop, so testing it in every iteration is testing it once.  \<open>Some (found, end)\<close> is the
  \<open>break\<close> after a push, \<open>None\<close> is leaving the loop with nothing pushed.
\<close>

function scanClaim :: "string \<Rightarrow> string \<Rightarrow> nat \<Rightarrow> (nat \<times> nat) list \<Rightarrow> nat \<Rightarrow> (nat \<times> nat) option" where
  "scanClaim lower claimLower clen used pos =
     (if claimLower = [] then None
      else
        case indexOf lower claimLower pos of
          None \<Rightarrow> None
        | Some found \<Rightarrow>
            if overlapsUsed used found (found + clen)
            then scanClaim lower claimLower clen used (found + 1)
            else Some (found, found + clen))"
  by pat_completeness auto
termination
proof (relation "measure (\<lambda>(lower, claimLower, clen, used, pos). length lower - pos)")
  show "wf (measure (\<lambda>(lower, claimLower, clen, used, pos). length lower - pos))" by simp
next
  fix lower claimLower :: string and clen pos found :: nat and used :: "(nat \<times> nat) list"
  assume ne: "claimLower \<noteq> []" and f: "indexOf lower claimLower pos = Some found"
  from f have b: "min pos (length lower) \<le> found \<and> found + length claimLower \<le> length lower"
    unfolding indexOf_def by (rule searchFrom_Some_bounds)
  from ne have "1 \<le> length claimLower" by (cases claimLower) simp_all
  with b have "found < length lower \<and> pos \<le> found" by arith
  then show "((lower, claimLower, clen, used, found + 1), (lower, claimLower, clen, used, pos))
      \<in> measure (\<lambda>(lower, claimLower, clen, used, pos). length lower - pos)"
    by auto
qed

text \<open>One iteration of the \<open>for\<close> loop over the state \<open>(replacements, used)\<close>.\<close>

definition matchItem ::
    "string \<Rightarrow> replacement list \<times> (nat \<times> nat) list \<Rightarrow> item
      \<Rightarrow> replacement list \<times> (nat \<times> nat) list" where
  "matchItem lower state it =
     (case state of
        (replacements, used) \<Rightarrow>
          let claimLower = toLowerCase (claim it)
          in case scanClaim lower claimLower (length (claim it)) used 0 of
               None \<Rightarrow> (replacements, used)
             | Some (found, endp) \<Rightarrow>
                 (replacements @
                    [\<lparr>start = found, endpos = endp, claimIdx = originalIdx it,
                      markerStatus = toLowerCase (status it)\<rparr>],
                  used @ [(found, endp)]))"

definition matchLoop :: "string \<Rightarrow> item list \<Rightarrow> replacement list \<times> (nat \<times> nat) list" where
  "matchLoop responseText actionable =
     foldl (matchItem (toLowerCase responseText)) ([], []) actionable"

text \<open>The decimal digits of \<open>${claimIdx}\<close>.\<close>

function showNat :: "nat \<Rightarrow> string" where
  "showNat n = (if n < 10 then [char_of (48 + n)] else showNat (n div 10) @ [char_of (48 + n mod 10)])"
  by pat_completeness auto
termination
  by (relation "measure (\<lambda>n. n)") auto

definition spanOf :: "replacement \<Rightarrow> string \<Rightarrow> string" where
  "spanOf r slice =
     ''<span class='' @ [CHR 0x22] @ ''claim-annotation claim-annotation--'' @ markerStatus r
       @ [CHR 0x22] @ '' data-claim-idx='' @ [CHR 0x22] @ showNat (claimIdx r) @ [CHR 0x22]
       @ '' role='' @ [CHR 0x22] @ ''button'' @ [CHR 0x22]
       @ '' tabindex='' @ [CHR 0x22] @ ''0'' @ [CHR 0x22] @ ''>'' @ slice @ ''</span>''"

text \<open>\<open>str.slice(a, b)\<close> for indices that are not negative.\<close>

definition slice :: "string \<Rightarrow> nat \<Rightarrow> nat \<Rightarrow> string" where
  "slice str a b = take (b - a) (drop a str)"

text \<open>One iteration of the loop that injects the spans.\<close>

definition applyReplacement :: "string \<Rightarrow> replacement \<Rightarrow> string" where
  "applyReplacement result r =
     (let sl = slice result (start r) (endpos r);
          span = spanOf r sl
      in take (start r) result @ span @ drop (endpos r) result)"

definition annotateChairmanText :: "string \<Rightarrow> vresult list option \<Rightarrow> string" where
  "annotateChairmanText responseText stage25opt =
     (case stage25opt of
        None \<Rightarrow> responseText
      | Some stage25Results \<Rightarrow>
          if length stage25Results = 0 then responseText
          else
            let actionable = actionableOf stage25Results
            in if length actionable = 0 then responseText
               else
                 let sorted = sortByClaimLength actionable;
                     replacements = fst (matchLoop responseText sorted)
                 in if length replacements = 0 then responseText
                    else foldl applyReplacement responseText (sortByStartDesc replacements))"

section \<open>The Phase 0 review flow of the application component\<close>



record message =
  role :: string
  content :: string
  scrubbedContent :: "string option"
  msgReasoning :: "string option"
  usedScrubbed :: bool



















section \<open>The two functions over a store\<close>

text \<open>
  Arrays and objects are reference values in JavaScript: two variables can name the same array,
  and \<open>sort\<close> and \<open>push\<close> change the array they are called on.  To state what a call leaves
  unchanged, the store is explicit here: a list of cells whose indices are the addresses, where
  allocating appends a cell.  Strings and numbers are immutable values and stay outside the
  store.  A read of a cell of another kind than the one expected (a \<open>TypeError\<close> in JavaScript)
  gives an empty value; the results below that compare with the functions on values assume a
  well-formed store.
\<close>

type_synonym addr = nat

record entryCell =
  ec_confidence :: "int option"
  ec_factual_claims :: "addr option"

datatype cell =
    ResultObj vresult
  | ItemObj item
  | EntryObj entryCell
  | RefArray "addr list"
  | StrArray "string list"
  | NumArray "int option list"
  | ReplArray "replacement list"
  | SpanArray "(nat \<times> nat) list"

type_synonym store = "cell list"

definition cellAt :: "store \<Rightarrow> addr \<Rightarrow> cell option" where
  "cellAt h a = (if a < length h then Some (h ! a) else None)"

definition alloc :: "cell \<Rightarrow> store \<Rightarrow> addr \<times> store" where
  "alloc c h = (length h, h @ [c])"

definition refsAt :: "store \<Rightarrow> addr \<Rightarrow> addr list" where
  "refsAt h a = (case cellAt h a of Some (RefArray xs) \<Rightarrow> xs | _ \<Rightarrow> [])"

definition strsAt :: "store \<Rightarrow> addr \<Rightarrow> string list" where
  "strsAt h a = (case cellAt h a of Some (StrArray xs) \<Rightarrow> xs | _ \<Rightarrow> [])"

definition numsAt :: "store \<Rightarrow> addr \<Rightarrow> int option list" where
  "numsAt h a = (case cellAt h a of Some (NumArray xs) \<Rightarrow> xs | _ \<Rightarrow> [])"

definition replsAt :: "store \<Rightarrow> addr \<Rightarrow> replacement list" where
  "replsAt h a = (case cellAt h a of Some (ReplArray xs) \<Rightarrow> xs | _ \<Rightarrow> [])"

definition spansAt :: "store \<Rightarrow> addr \<Rightarrow> (nat \<times> nat) list" where
  "spansAt h a = (case cellAt h a of Some (SpanArray xs) \<Rightarrow> xs | _ \<Rightarrow> [])"

definition resultAt :: "store \<Rightarrow> addr \<Rightarrow> vresult" where
  "resultAt h a =
     (case cellAt h a of Some (ResultObj r) \<Rightarrow> r | _ \<Rightarrow> \<lparr>claim = '''', status = ''''\<rparr>)"

definition itemAt :: "store \<Rightarrow> addr \<Rightarrow> item" where
  "itemAt h a =
     (case cellAt h a of
        Some (ItemObj r) \<Rightarrow> r
      | _ \<Rightarrow> \<lparr>claim = '''', status = '''', originalIdx = 0\<rparr>)"

definition entryAt :: "store \<Rightarrow> addr \<Rightarrow> entryCell" where
  "entryAt h a =
     (case cellAt h a of
        Some (EntryObj e) \<Rightarrow> e
      | _ \<Rightarrow> \<lparr>ec_confidence = None, ec_factual_claims = None\<rparr>)"

subsection \<open>annotateChairmanText\<close>

text \<open>
  \<open>stage25Results.map((r, idx) => ({ ...r, originalIdx: idx }))\<close>: a new object for every
  element, then a new array of them.
\<close>

definition mapWithOriginalIdx :: "store \<Rightarrow> addr \<Rightarrow> addr \<times> store" where
  "mapWithOriginalIdx h a =
     (let copies =
            map (\<lambda>(idx, p). ItemObj \<lparr>claim = claim (resultAt h p), status = status (resultAt h p),
                                      originalIdx = idx\<rparr>)
              (enumerate 0 (refsAt h a));
          base = length h
      in alloc (RefArray [base ..< base + length copies]) (h @ copies))"

text \<open>\<open>.filter((r) => ['VERIFIED', 'CONTRADICTED', 'CONTESTED'].includes(r.status))\<close>: a new array.\<close>

definition filterActionableItems :: "store \<Rightarrow> addr \<Rightarrow> addr \<times> store" where
  "filterActionableItems h a =
     alloc (RefArray
        (filter (\<lambda>p. status (itemAt h p) \<in> set [''VERIFIED'', ''CONTRADICTED'', ''CONTESTED''])
           (refsAt h a))) h"

text \<open>\<open>actionable.sort(...)\<close> sorts the array at the address \<open>a\<close> in place.\<close>

definition sortItemsInPlace :: "store \<Rightarrow> addr \<Rightarrow> store" where
  "sortItemsInPlace h a =
     h[a := RefArray (sort_key (\<lambda>p. - int (length (claim (itemAt h p)))) (refsAt h a))]"

text \<open>\<open>replacements.push(...)\<close> and \<open>used.push(...)\<close> change the arrays in place.\<close>

definition pushReplacement :: "store \<Rightarrow> addr \<Rightarrow> replacement \<Rightarrow> store" where
  "pushReplacement h ra r = h[ra := ReplArray (replsAt h ra @ [r])]"

definition pushSpan :: "store \<Rightarrow> addr \<Rightarrow> nat \<times> nat \<Rightarrow> store" where
  "pushSpan h ua s = h[ua := SpanArray (spansAt h ua @ [s])]"

definition matchItemSt :: "string \<Rightarrow> addr \<Rightarrow> addr \<Rightarrow> store \<Rightarrow> addr \<Rightarrow> store" where
  "matchItemSt lower ra ua h p =
     (let it = itemAt h p;
          claimLower = toLowerCase (claim it)
      in case scanClaim lower claimLower (length (claim it)) (spansAt h ua) 0 of
           None \<Rightarrow> h
         | Some (found, endp) \<Rightarrow>
             pushSpan
               (pushReplacement h ra
                  \<lparr>start = found, endpos = endp, claimIdx = originalIdx it,
                    markerStatus = toLowerCase (status it)\<rparr>)
               ua (found, endp))"

text \<open>\<open>replacements.sort(...)\<close>, in place.\<close>

definition sortReplacementsInPlace :: "store \<Rightarrow> addr \<Rightarrow> store" where
  "sortReplacementsInPlace h ra = h[ra := ReplArray (sortByStartDesc (replsAt h ra))]"

definition annotateChairmanTextSt :: "store \<Rightarrow> string \<Rightarrow> addr option \<Rightarrow> string \<times> store" where
  "annotateChairmanTextSt h responseText stage25opt =
     (case stage25opt of
        None \<Rightarrow> (responseText, h)
      | Some stage25Results \<Rightarrow>
          if length (refsAt h stage25Results) = 0 then (responseText, h)
          else
            let (mapped, h1) = mapWithOriginalIdx h stage25Results;
                (actionable, h2) = filterActionableItems h1 mapped
            in if length (refsAt h2 actionable) = 0 then (responseText, h2)
               else
                 let h3 = sortItemsInPlace h2 actionable;
                     (replacements, h4) = alloc (ReplArray []) h3;
                     (used, h5) = alloc (SpanArray []) h4;
                     lower = toLowerCase responseText;
                     h6 = foldl (matchItemSt lower replacements used) h5 (refsAt h5 actionable)
                 in if length (replsAt h6 replacements) = 0 then (responseText, h6)
                    else
                      let h7 = sortReplacementsInPlace h6 replacements
                      in (foldl applyReplacement responseText (replsAt h7 replacements), h7))"

subsection \<open>calcVerdict\<close>

text \<open>
  \<open>some\<close>, \<open>every\<close>, \<open>includes\<close> and \<open>reduce\<close> read; \<open>filter\<close>, \<open>map\<close>, \<open>flat\<close> and the spread of a
  \<open>Set\<close> return a new array.  The arrays that the callback of \<open>unique.filter\<close> builds and drops
  are not stored.
\<close>

definition externalEvidenceSt :: "store \<Rightarrow> addr option \<Rightarrow> string option \<times> store" where
  "externalEvidenceSt h stage25opt =
     (case stage25opt of
        None \<Rightarrow> (None, h)
      | Some stage25 \<Rightarrow>
          if length (refsAt h stage25) > 0 then
            if list_ex (\<lambda>p. status (resultAt h p) = ''CONTRADICTED'') (refsAt h stage25)
            then (Some ''Disputed'', h)
            else
              let (actionable, h1) =
                    alloc (RefArray (filter (\<lambda>p. isActionable (resultAt h p)) (refsAt h stage25))) h
              in if length (refsAt h1 actionable) > 0
                    \<and> list_all (\<lambda>p. status (resultAt h1 p) = ''VERIFIED'') (refsAt h1 actionable)
                 then (Some ''Verified'', h1)
                 else (None, h1)
          else (None, h))"

text \<open>
  \<open>stage1.map((r) => Array.isArray(r.factual_claims) ? r.factual_claims.map(normalize) : [])\<close>:
  one new array of strings for every response, from left to right.
\<close>

definition allocClaims :: "addr list \<times> store \<Rightarrow> addr \<Rightarrow> addr list \<times> store" where
  "allocClaims acc p =
     (case acc of
        (sofar, h) \<Rightarrow>
          let cs = (case ec_factual_claims (entryAt h p) of
                      Some fa \<Rightarrow> map normalize (strsAt h fa)
                    | None \<Rightarrow> []);
              (a, h') = alloc (StrArray cs) h
          in (sofar @ [a], h'))"

definition factualConsensusSt :: "store \<Rightarrow> addr option \<Rightarrow> string \<times> store" where
  "factualConsensusSt h stage1opt =
     (case stage1opt of
        None \<Rightarrow> (''Unknown'', h)
      | Some stage1 \<Rightarrow>
          if length (refsAt h stage1) = 0 then (''Unknown'', h)
          else
            let (declared, h1) =
                  alloc (NumArray (map (\<lambda>p. ec_confidence (entryAt h p)) (refsAt h stage1))) h;
                (confidences, h2) =
                  alloc (NumArray (filter (\<lambda>v. v \<noteq> None) (numsAt h1 declared))) h1;
                cs = map the (numsAt h2 confidences);
                avgConf = (if length cs > 0
                           then Some (real_of_int (foldl (\<lambda>sum v. sum + v) 0 cs) / real (length cs))
                           else None)
            in if avgConf \<noteq> None \<and> the avgConf < 50 then (''Uncertain'', h2)
               else
                 let (lists, h3) = foldl allocClaims ([], h2) (refsAt h2 stage1);
                     (allClaims, h4) = alloc (RefArray lists) h3
                 in if list_all (\<lambda>q. length (strsAt h4 q) = 0) (refsAt h4 allClaims) then
                      (if avgConf \<noteq> None \<and> the avgConf \<ge> 65 then ''Consensus'' else ''Split'', h4)
                    else
                      let (flat, h5) =
                            alloc (StrArray (concat (map (strsAt h4) (refsAt h4 allClaims)))) h4;
                          (unique, h6) = alloc (StrArray (uniqueOf (strsAt h5 flat))) h5;
                          (overlapping, h7) =
                            alloc (StrArray
                              (filter
                                 (\<lambda>c. length (filter (\<lambda>q. c \<in> set (strsAt h6 q)) (refsAt h6 allClaims))
                                        \<ge> 2)
                                 (strsAt h6 unique))) h6;
                          overlapRatio = real (length (strsAt h7 overlapping))
                                          / real (length (strsAt h7 unique))
                      in if overlapRatio \<ge> 0.5 \<and> avgConf \<noteq> None \<and> the avgConf \<ge> 65
                         then (''Consensus'', h7)
                         else if avgConf \<noteq> None \<and> the avgConf < 55 then (''Uncertain'', h7)
                         else (''Split'', h7))"

definition calcVerdictSt :: "store \<Rightarrow> addr option \<Rightarrow> addr option \<Rightarrow> string \<times> store" where
  "calcVerdictSt h stage25 stage1 =
     (case externalEvidenceSt h stage25 of
        (Some v, h1) \<Rightarrow> (v, h1)
      | (None, h1) \<Rightarrow> factualConsensusSt h1 stage1)"

section \<open>Vocabulary of the verdict claims\<close>









text \<open>An entry of the aggregate rankings, \<open>{model, average_rank}\<close>, and the object that
  \<open>calcPeerAlignment\<close> reads when it is given one: no \<open>factual_claims\<close>, no \<open>confidence\<close>.\<close>

record ranking =
  rk_model :: string
  rk_average_rank :: real

definition rankingAsEntry :: "ranking \<Rightarrow> entry" where
  "rankingAsEntry a =
     \<lparr>model = Some (rk_model a), average_rank = Some (rk_average_rank a),
      confidence = None, factual_claims = None\<rparr>"

text \<open>\<open>calcPeerAlignment(aggregateRankings)\<close>, as \<open>EpistemicSummary\<close> and \<open>EpistemicDrawer\<close> call it.\<close>

definition peerAlignmentShown :: "ranking list option \<Rightarrow> string" where
  "peerAlignmentShown aggregateRankings =
     calcPeerAlignment (map_option (map rankingAsEntry) aggregateRankings)"





definition rankingEntries :: "entry list" where
  "rankingEntries = [\<lparr>model = Some ''openai/gpt'', average_rank = Some 1.5, confidence = None,
                      factual_claims = None\<rparr>,
                     \<lparr>model = Some ''x/y'', average_rank = Some 2, confidence = None,
                      factual_claims = None\<rparr>]"

definition oneContradicted :: "vresult list" where
  "oneContradicted = [\<lparr>claim = ''a'', status = ''VERIFIED''\<rparr>,
                      \<lparr>claim = ''b'', status = ''CONTRADICTED''\<rparr>,
                      \<lparr>claim = ''c'', status = ''VERIFIED''\<rparr>]"

definition verifiedAndUnverifiable :: "vresult list" where
  "verifiedAndUnverifiable = [\<lparr>claim = ''a'', status = ''VERIFIED''\<rparr>,
                              \<lparr>claim = ''b'', status = ''UNVERIFIABLE''\<rparr>]"

section \<open>Vocabulary of the annotation claims\<close>









text \<open>A response and its verification results, used to run the definitions.\<close>

definition catText :: string where
  "catText = ''The cat sat. the cat sat on the mat. Cat!''"

definition catResults :: "vresult list" where
  "catResults = [\<lparr>claim = ''cat'', status = ''CONTESTED''\<rparr>,
                 \<lparr>claim = ''The Cat Sat'', status = ''VERIFIED''\<rparr>,
                 \<lparr>claim = ''the cat sat on the mat'', status = ''CONTRADICTED''\<rparr>,
                 \<lparr>claim = ''dogs bark'', status = ''VERIFIED''\<rparr>,
                 \<lparr>claim = ''the mat'', status = ''UNVERIFIABLE''\<rparr>]"






section \<open>Vocabulary of the Phase 0 claim\<close>



section \<open>Vocabulary of the frame claim\<close>

text \<open>Every cell of the store \<open>h\<close> stands unchanged, at its address, in the store \<open>h'\<close>.\<close>

definition preserves :: "store \<Rightarrow> store \<Rightarrow> bool" where
  "preserves h h' = (\<forall>a < length h. cellAt h' a = cellAt h a)"

text \<open>The copy that \<open>map\<close> makes of the result at index \<open>idx\<close>.\<close>

definition itemOfResult :: "nat \<times> vresult \<Rightarrow> item" where
  "itemOfResult = (\<lambda>(idx, r). \<lparr>claim = claim r, status = status r, originalIdx = idx\<rparr>)"

text \<open>The Stage 1 response that the store holds at an address, as a value.\<close>

definition entryOf :: "store \<Rightarrow> addr \<Rightarrow> entry" where
  "entryOf h p =
     \<lparr>model = None, average_rank = None, confidence = ec_confidence (entryAt h p),
      factual_claims = map_option (strsAt h) (ec_factual_claims (entryAt h p))\<rparr>"

text \<open>The address of a response, and the address of its claim array if it has one, are allocated.\<close>

definition validEntry :: "store \<Rightarrow> addr \<Rightarrow> bool" where
  "validEntry h p =
     (p < length h \<and> (case ec_factual_claims (entryAt h p) of None \<Rightarrow> True | Some fa \<Rightarrow> fa < length h))"

text \<open>The Stage 1 argument is \<open>null\<close>, or an allocated array of valid responses.\<close>

definition validStage1 :: "store \<Rightarrow> addr option \<Rightarrow> bool" where
  "validStage1 h stage1opt =
     (case stage1opt of
        None \<Rightarrow> True
      | Some a \<Rightarrow> a < length h \<and> (\<forall>p \<in> set (refsAt h a). validEntry h p))"

text \<open>The normalized claims of the response at an address.\<close>

definition claimsOfEntry :: "store \<Rightarrow> addr \<Rightarrow> string list" where
  "claimsOfEntry h p =
     (case ec_factual_claims (entryAt h p) of
        Some fa \<Rightarrow> map normalize (strsAt h fa)
      | None \<Rightarrow> [])"

text \<open>A store that holds the verification results of the example and two Stage 1 responses.\<close>

definition catStore :: store where
  "catStore =
     [ResultObj \<lparr>claim = ''cat'', status = ''CONTESTED''\<rparr>,
      ResultObj \<lparr>claim = ''The Cat Sat'', status = ''VERIFIED''\<rparr>,
      ResultObj \<lparr>claim = ''the cat sat on the mat'', status = ''CONTRADICTED''\<rparr>,
      ResultObj \<lparr>claim = ''dogs bark'', status = ''VERIFIED''\<rparr>,
      ResultObj \<lparr>claim = ''the mat'', status = ''UNVERIFIABLE''\<rparr>,
      RefArray [0, 1, 2, 3, 4],
      StrArray [''Water boils at 100 C.''],
      EntryObj \<lparr>ec_confidence = Some 80, ec_factual_claims = Some 6\<rparr>,
      EntryObj \<lparr>ec_confidence = Some 80, ec_factual_claims = None\<rparr>,
      RefArray [7, 8]]"

section \<open>Lemmas about the verdict\<close>





















section \<open>Lemmas about the annotation\<close>

declare searchFrom.simps [simp del] scanClaim.simps [simp del] showNat.simps [simp del]







































section \<open>Lemmas about the Phase 0 flow\<close>





section \<open>Lemmas about the store\<close>

lemma preserves_refl: "preserves h h"
  by (simp add: preserves_def)

lemma preserves_length: "preserves h h' \<Longrightarrow> length h \<le> length h'"
proof (rule ccontr)
  assume p: "preserves h h'" and "\<not> length h \<le> length h'"
  then have l: "length h' < length h" by simp
  with p have "cellAt h' (length h') = cellAt h (length h')" by (simp add: preserves_def)
  with l show False by (simp add: cellAt_def)
qed

lemma preserves_append: "preserves h0 h \<Longrightarrow> preserves h0 (h @ xs)"
  using preserves_length [of h0 h] by (auto simp: preserves_def cellAt_def nth_append)

lemma preserves_update: "preserves h0 h \<Longrightarrow> length h0 \<le> a \<Longrightarrow> preserves h0 (h[a := c])"
  by (auto simp: preserves_def cellAt_def)

lemma alloc_frame:
  "preserves h0 h \<Longrightarrow> preserves h0 (snd (alloc c h)) \<and> length h0 \<le> fst (alloc c h)"
  using preserves_length [of h0 h] by (simp add: alloc_def preserves_append)

lemma mapWithOriginalIdx_frame:
  "preserves h0 h \<Longrightarrow>
   preserves h0 (snd (mapWithOriginalIdx h a)) \<and> length h0 \<le> fst (mapWithOriginalIdx h a)"
  using preserves_length [of h0 h]
  by (simp add: mapWithOriginalIdx_def Let_def alloc_def preserves_append)

lemma filterActionableItems_frame:
  "preserves h0 h \<Longrightarrow>
   preserves h0 (snd (filterActionableItems h a)) \<and> length h0 \<le> fst (filterActionableItems h a)"
  unfolding filterActionableItems_def by (rule alloc_frame)

lemma matchItemSt_frame:
  assumes "preserves h0 h" and "length h0 \<le> ra" and "length h0 \<le> ua"
  shows "preserves h0 (matchItemSt lower ra ua h p)"
  using assms
  by (auto simp: matchItemSt_def Let_def pushSpan_def pushReplacement_def preserves_update
      split: option.splits)

lemma foldl_matchItemSt_frame:
  "preserves h0 h \<Longrightarrow> length h0 \<le> ra \<Longrightarrow> length h0 \<le> ua
   \<Longrightarrow> preserves h0 (foldl (matchItemSt lower ra ua) h ps)"
  by (induction ps arbitrary: h) (simp_all add: matchItemSt_frame)

lemma preserves_if:
  "(c \<Longrightarrow> preserves h0 (snd a)) \<Longrightarrow> (\<not> c \<Longrightarrow> preserves h0 (snd b))
   \<Longrightarrow> preserves h0 (snd (if c then a else b))"
  by simp

lemma preserves_let: "preserves h0 (snd (f x)) \<Longrightarrow> preserves h0 (snd (Let x f))"
  by simp

lemma preserves_case_prod:
  "(\<And>a b. p = (a, b) \<Longrightarrow> preserves h0 (snd (f a b)))
   \<Longrightarrow> preserves h0 (snd (case p of (a, b) \<Rightarrow> f a b))"
  by (cases p) simp

lemma preserves_pair: "preserves h0 h \<Longrightarrow> preserves h0 (snd (v, h))"
  by simp

lemma preserves_case_option:
  "(x = None \<Longrightarrow> preserves h0 (snd a)) \<Longrightarrow> (\<And>y. x = Some y \<Longrightarrow> preserves h0 (snd (f y)))
   \<Longrightarrow> preserves h0 (snd (case x of None \<Rightarrow> a | Some y \<Rightarrow> f y))"
  by (cases x) simp_all

lemma alloc_preserves:
  "alloc c h = (a, h') \<Longrightarrow> preserves h0 h \<Longrightarrow> preserves h0 h' \<and> length h0 \<le> a"
  using alloc_frame [of h0 h c] by simp

lemma mapWithOriginalIdx_preserves:
  "mapWithOriginalIdx h a = (m, h') \<Longrightarrow> preserves h0 h \<Longrightarrow> preserves h0 h' \<and> length h0 \<le> m"
  using mapWithOriginalIdx_frame [of h0 h a] by simp

lemma filterActionableItems_preserves:
  "filterActionableItems h a = (m, h') \<Longrightarrow> preserves h0 h \<Longrightarrow> preserves h0 h' \<and> length h0 \<le> m"
  using filterActionableItems_frame [of h0 h a] by simp

lemma sortItemsInPlace_preserves:
  "preserves h0 h \<Longrightarrow> length h0 \<le> a \<Longrightarrow> preserves h0 (sortItemsInPlace h a)"
  by (simp add: sortItemsInPlace_def preserves_update)

lemma sortReplacementsInPlace_preserves:
  "preserves h0 h \<Longrightarrow> length h0 \<le> a \<Longrightarrow> preserves h0 (sortReplacementsInPlace h a)"
  by (simp add: sortReplacementsInPlace_def preserves_update)

lemma annotateChairmanTextSt_frame:
  "preserves h (snd (annotateChairmanTextSt h doc stage25opt))"
  unfolding annotateChairmanTextSt_def
proof (intro preserves_case_option preserves_if preserves_let preserves_case_prod preserves_pair)
  show "preserves h h" by (rule preserves_refl)
  show "preserves h h" by (rule preserves_refl)
next
  fix y mapped h1 actionable h2
  assume m: "mapWithOriginalIdx h y = (mapped, h1)"
    and f: "filterActionableItems h1 mapped = (actionable, h2)"
  from mapWithOriginalIdx_preserves [OF m preserves_refl] have p1: "preserves h h1" by simp
  from filterActionableItems_preserves [OF f p1]
  have p2: "preserves h h2" and fa: "length h \<le> actionable" by simp_all
  show "preserves h h2" by (rule p2)
  have p3: "preserves h (sortItemsInPlace h2 actionable)"
    using p2 fa by (rule sortItemsInPlace_preserves)
  fix ra h4 ua h5
  assume r: "alloc (ReplArray []) (sortItemsInPlace h2 actionable) = (ra, h4)"
    and u: "alloc (SpanArray []) h4 = (ua, h5)"
  from alloc_preserves [OF r p3] have p4: "preserves h h4" and fr: "length h \<le> ra" by simp_all
  from alloc_preserves [OF u p4] have p5: "preserves h h5" and fu: "length h \<le> ua" by simp_all
  show p6: "preserves h (foldl (matchItemSt (toLowerCase doc) ra ua) h5 (refsAt h5 actionable))"
    using p5 fr fu by (rule foldl_matchItemSt_frame)
  show "preserves h (sortReplacementsInPlace
      (foldl (matchItemSt (toLowerCase doc) ra ua) h5 (refsAt h5 actionable)) ra)"
    using p6 fr by (rule sortReplacementsInPlace_preserves)
qed

lemma externalEvidenceSt_frame:
  assumes "preserves h0 h"
  shows "preserves h0 (snd (externalEvidenceSt h stage25opt))"
  unfolding externalEvidenceSt_def
  by (intro preserves_case_option preserves_if preserves_let preserves_case_prod preserves_pair)
    (auto dest: alloc_preserves [OF _ assms] intro: assms)

lemma allocClaims_frame:
  "preserves h0 (snd acc) \<Longrightarrow> preserves h0 (snd (allocClaims acc p))"
  by (cases acc) (simp add: allocClaims_def Let_def alloc_def preserves_append)

lemma foldl_allocClaims_frame:
  "preserves h0 (snd acc) \<Longrightarrow> preserves h0 (snd (foldl allocClaims acc ps))"
  by (induction ps arbitrary: acc) (simp_all add: allocClaims_frame)

lemma foldl_allocClaims_preserves:
  "foldl allocClaims ([], h) ps = (l, h') \<Longrightarrow> preserves h0 h \<Longrightarrow> preserves h0 h'"
  using foldl_allocClaims_frame [of h0 "([], h)" ps] by simp

lemma factualConsensusSt_frame:
  assumes "preserves h0 h"
  shows "preserves h0 (snd (factualConsensusSt h stage1opt))"
  unfolding factualConsensusSt_def
proof (intro preserves_case_option preserves_if preserves_let preserves_case_prod preserves_pair)
  show "preserves h0 h" by (rule assms)
  show "preserves h0 h" by (rule assms)
next
  fix y declared h1 confidences h2
  assume d: "alloc (NumArray (map (\<lambda>p. ec_confidence (entryAt h p)) (refsAt h y))) h = (declared, h1)"
    and c: "alloc (NumArray (filter (\<lambda>v. v \<noteq> None) (numsAt h1 declared))) h1 = (confidences, h2)"
  from alloc_preserves [OF d assms] have p1: "preserves h0 h1" by simp
  from alloc_preserves [OF c p1] have p2: "preserves h0 h2" by simp
  show "preserves h0 h2" by (rule p2)
  fix lists h3 allClaims h4
  assume l: "foldl allocClaims ([], h2) (refsAt h2 y) = (lists, h3)"
    and a: "alloc (RefArray lists) h3 = (allClaims, h4)"
  from foldl_allocClaims_preserves [OF l p2] have p3: "preserves h0 h3" .
  from alloc_preserves [OF a p3] have p4: "preserves h0 h4" by simp
  show "preserves h0 h4" by (rule p4)
  fix flat h5 unique h6 overlapping h7
  assume f: "alloc (StrArray (concat (map (strsAt h4) (refsAt h4 allClaims)))) h4 = (flat, h5)"
    and u: "alloc (StrArray (uniqueOf (strsAt h5 flat))) h5 = (unique, h6)"
    and o: "alloc (StrArray (filter (\<lambda>c. 2 \<le> length (filter (\<lambda>q. c \<in> set (strsAt h6 q))
              (refsAt h6 allClaims))) (strsAt h6 unique))) h6 = (overlapping, h7)"
  from alloc_preserves [OF f p4] have p5: "preserves h0 h5" by simp
  from alloc_preserves [OF u p5] have p6: "preserves h0 h6" by simp
  from alloc_preserves [OF o p6] have p7: "preserves h0 h7" by simp
  show "preserves h0 h7" by (rule p7)
  show "preserves h0 h7" by (rule p7)
  show "preserves h0 h7" by (rule p7)
qed

lemma calcVerdictSt_frame: "preserves h (snd (calcVerdictSt h stage25 stage1))"
proof -
  obtain v h1 where e: "externalEvidenceSt h stage25 = (v, h1)" by force
  from externalEvidenceSt_frame [OF preserves_refl, of h stage25] e
  have p1: "preserves h h1" by simp
  show ?thesis
  proof (cases v)
    case None
    with e factualConsensusSt_frame [OF p1, of stage1] show ?thesis
      by (simp add: calcVerdictSt_def)
  next
    case (Some x)
    with e p1 show ?thesis by (simp add: calcVerdictSt_def)
  qed
qed

lemma cellAt_append:
  "cellAt (h @ xs) a =
     (if a < length h then cellAt h a
      else if a - length h < length xs then Some (xs ! (a - length h)) else None)"
  by (auto simp: cellAt_def nth_append)

lemma cellAt_update:
  "cellAt (h[b := c]) a = (if a = b \<and> b < length h then Some c else cellAt h a)"
  by (auto simp: cellAt_def)

lemma itemAt_cong: "cellAt h' p = cellAt h p \<Longrightarrow> itemAt h' p = itemAt h p"
  by (simp add: itemAt_def)

lemma enumerate_map_snd:
  "enumerate n (map g xs) = map (\<lambda>(i, x). (i, g x)) (enumerate n xs)"
  by (induction xs arbitrary: n) simp_all

lemma map_insort_key:
  "map g (insort_key (\<lambda>x. f (g x)) x xs) = insort_key f (g x) (map g xs)"
  by (induction xs) simp_all

lemma map_sort_key: "map g (sort_key (\<lambda>x. f (g x)) xs) = sort_key f (map g xs)"
  by (induction xs) (simp_all add: map_insort_key)

lemma sort_key_cong_set:
  "(\<And>x. x \<in> set xs \<Longrightarrow> f x = g x) \<Longrightarrow> sort_key f xs = sort_key g xs"
proof (induction xs)
  case Nil
  then show ?case by simp
next
  case (Cons x xs)
  have ins: "insort_key f x ys = insort_key g x ys"
    if "set ys \<subseteq> set xs" for ys
    using that Cons.prems by (induction ys) auto
  from Cons show ?case by (simp add: ins)
qed

lemma mapWithOriginalIdx_items:
  assumes "mapWithOriginalIdx h a = (m, h1)"
  shows "map (itemAt h1) (refsAt h1 m)
         = map itemOfResult (enumerate 0 (map (resultAt h) (refsAt h a)))"
    and "m < length h1" and "\<forall>p \<in> set (refsAt h1 m). p < m"
proof -
  define ps where "ps = refsAt h a"
  define copies where "copies = map (\<lambda>(idx, p). ItemObj \<lparr>claim = claim (resultAt h p),
      status = status (resultAt h p), originalIdx = idx\<rparr>) (enumerate 0 ps)"
  define base where "base = length h"
  have n: "length copies = length ps" by (simp add: copies_def)
  from assms have m: "m = base + length ps"
    and h1: "h1 = (h @ copies) @ [RefArray [base ..< base + length ps]]"
    by (auto simp: mapWithOriginalIdx_def Let_def alloc_def ps_def copies_def base_def)
  have refs: "refsAt h1 m = [base ..< base + length ps]"
    by (simp add: refsAt_def cellAt_def h1 m base_def n nth_append)
  show "m < length h1" by (simp add: h1 m base_def n)
  show "\<forall>p \<in> set (refsAt h1 m). p < m" unfolding refs by (simp add: m)
  have it: "itemAt h1 (base + i) = itemOfResult (i, resultAt h (ps ! i))" if "i < length ps" for i
  proof -
    from that have "cellAt h1 (base + i) = Some (copies ! i)"
      by (simp add: cellAt_def h1 base_def n nth_append)
    also from that have "copies ! i = ItemObj (itemOfResult (i, resultAt h (ps ! i)))"
      by (simp add: copies_def itemOfResult_def nth_enumerate_eq)
    finally show ?thesis by (simp add: itemAt_def)
  qed
  show "map (itemAt h1) (refsAt h1 m)
         = map itemOfResult (enumerate 0 (map (resultAt h) (refsAt h a)))"
  proof (rule nth_equalityI)
    show "length (map (itemAt h1) (refsAt h1 m))
        = length (map itemOfResult (enumerate 0 (map (resultAt h) (refsAt h a))))"
      unfolding refs by (simp add: ps_def)
  next
    fix i assume "i < length (map (itemAt h1) (refsAt h1 m))"
    then have i: "i < length ps" unfolding refs by simp
    then show "map (itemAt h1) (refsAt h1 m) ! i
        = map itemOfResult (enumerate 0 (map (resultAt h) (refsAt h a))) ! i"
      unfolding refs by (simp add: it nth_enumerate_eq flip: ps_def)
  qed
qed

lemma filterActionableItems_items:
  assumes "filterActionableItems h1 m = (act, h2)" and "\<forall>p \<in> set (refsAt h1 m). p < length h1"
  shows "map (itemAt h2) (refsAt h2 act)
         = filter (\<lambda>r. status r \<in> set [''VERIFIED'', ''CONTRADICTED'', ''CONTESTED''])
             (map (itemAt h1) (refsAt h1 m))"
    and "act = length h1" and "length h2 = Suc (length h1)"
    and "\<forall>p \<in> set (refsAt h2 act). p < act"
proof -
  define keep where "keep = filter (\<lambda>p. status (itemAt h1 p)
      \<in> set [''VERIFIED'', ''CONTRADICTED'', ''CONTESTED'']) (refsAt h1 m)"
  from assms(1) have act: "act = length h1" and h2: "h2 = h1 @ [RefArray keep]"
    by (simp_all add: filterActionableItems_def alloc_def keep_def)
  show "act = length h1" by (rule act)
  show "length h2 = Suc (length h1)" by (simp add: h2)
  have refs: "refsAt h2 act = keep"
    by (simp add: refsAt_def cellAt_def h2 act)
  from assms(2) have lt: "\<forall>p \<in> set keep. p < length h1" by (simp add: keep_def)
  then show "\<forall>p \<in> set (refsAt h2 act). p < act" unfolding refs by (simp add: act)
  have "itemAt h2 p = itemAt h1 p" if "p \<in> set keep" for p
    using that lt by (intro itemAt_cong) (simp add: h2 cellAt_append)
  then have "map (itemAt h2) keep = map (itemAt h1) keep" by simp
  then show "map (itemAt h2) (refsAt h2 act)
         = filter (\<lambda>r. status r \<in> set [''VERIFIED'', ''CONTRADICTED'', ''CONTESTED''])
             (map (itemAt h1) (refsAt h1 m))"
    by (simp add: refs keep_def filter_map comp_def)
qed

lemma sortItemsInPlace_items:
  assumes "act < length h2" and "\<forall>p \<in> set (refsAt h2 act). p < act"
  shows "map (itemAt (sortItemsInPlace h2 act)) (refsAt (sortItemsInPlace h2 act) act)
         = sortByClaimLength (map (itemAt h2) (refsAt h2 act))"
    and "set (refsAt (sortItemsInPlace h2 act) act) = set (refsAt h2 act)"
    and "length (sortItemsInPlace h2 act) = length h2"
proof -
  let ?h3 = "sortItemsInPlace h2 act"
  let ?sorted = "sort_key (\<lambda>p. - int (length (claim (itemAt h2 p)))) (refsAt h2 act)"
  from assms(1) have refs: "refsAt ?h3 act = ?sorted"
    by (simp add: sortItemsInPlace_def refsAt_def cellAt_update)
  show "set (refsAt ?h3 act) = set (refsAt h2 act)" by (simp add: refs)
  show "length ?h3 = length h2" by (simp add: sortItemsInPlace_def)
  have "itemAt ?h3 p = itemAt h2 p" if "p \<in> set ?sorted" for p
  proof -
    from that assms(2) have "p \<noteq> act" by auto
    then show ?thesis by (intro itemAt_cong) (simp add: sortItemsInPlace_def cellAt_update)
  qed
  then have "map (itemAt ?h3) ?sorted = map (itemAt h2) ?sorted" by simp
  also have "\<dots> = sortByClaimLength (map (itemAt h2) (refsAt h2 act))"
    unfolding sortByClaimLength_def
    by (rule map_sort_key [of "itemAt h2" "\<lambda>a. - int (length (claim a))"])
  finally show "map (itemAt ?h3) (refsAt ?h3 act)
         = sortByClaimLength (map (itemAt h2) (refsAt h2 act))"
    by (simp add: refs)
qed

lemma matchItemSt_step:
  assumes "ra < length h" and "ua < length h" and "ra \<noteq> ua"
    and "cellAt h ra = Some (ReplArray reps)" and "cellAt h ua = Some (SpanArray used)"
  shows "length (matchItemSt lower ra ua h p) = length h"
    and "\<forall>q. q \<noteq> ra \<and> q \<noteq> ua \<longrightarrow> cellAt (matchItemSt lower ra ua h p) q = cellAt h q"
    and "cellAt (matchItemSt lower ra ua h p) ra
           = Some (ReplArray (fst (matchItem lower (reps, used) (itemAt h p))))"
    and "cellAt (matchItemSt lower ra ua h p) ua
           = Some (SpanArray (snd (matchItem lower (reps, used) (itemAt h p))))"
proof -
  from assms(5) have sp: "spansAt h ua = used" by (simp add: spansAt_def)
  from assms(4) have rp: "replsAt h ra = reps" by (simp add: replsAt_def)
  from assms(3,5) have sp': "spansAt (h[ra := c]) ua = used" for c
    by (simp add: spansAt_def cellAt_update)
  let ?sc = "scanClaim lower (toLowerCase (claim (itemAt h p))) (length (claim (itemAt h p))) used 0"
  show "length (matchItemSt lower ra ua h p) = length h"
    by (cases ?sc) (auto simp: matchItemSt_def Let_def sp pushSpan_def pushReplacement_def)
  show "\<forall>q. q \<noteq> ra \<and> q \<noteq> ua \<longrightarrow> cellAt (matchItemSt lower ra ua h p) q = cellAt h q"
    by (cases ?sc)
      (auto simp: matchItemSt_def Let_def sp pushSpan_def pushReplacement_def cellAt_update)
  show "cellAt (matchItemSt lower ra ua h p) ra
           = Some (ReplArray (fst (matchItem lower (reps, used) (itemAt h p))))"
    using assms(1,3,4)
    by (cases ?sc)
      (auto simp: matchItemSt_def matchItem_def Let_def sp rp pushSpan_def pushReplacement_def
        cellAt_update)
  show "cellAt (matchItemSt lower ra ua h p) ua
           = Some (SpanArray (snd (matchItem lower (reps, used) (itemAt h p))))"
    using assms(2,3,5)
    by (cases ?sc)
      (auto simp: matchItemSt_def matchItem_def Let_def sp sp' rp pushSpan_def pushReplacement_def
        cellAt_update)
qed

lemma foldl_matchItemSt_refines:
  assumes "ra < length h" and "ua < length h" and "ra \<noteq> ua"
    and "cellAt h ra = Some (ReplArray reps)" and "cellAt h ua = Some (SpanArray used)"
    and "\<forall>p \<in> set ps. p \<noteq> ra \<and> p \<noteq> ua"
  shows "cellAt (foldl (matchItemSt lower ra ua) h ps) ra
           = Some (ReplArray (fst (foldl (matchItem lower) (reps, used) (map (itemAt h) ps))))
         \<and> length (foldl (matchItemSt lower ra ua) h ps) = length h"
  using assms
proof (induction ps arbitrary: h reps used)
  case Nil
  then show ?case by simp
next
  case (Cons p ps)
  let ?h1 = "matchItemSt lower ra ua h p"
  obtain reps1 used1 where mi: "matchItem lower (reps, used) (itemAt h p) = (reps1, used1)"
    by force
  note st = matchItemSt_step [OF Cons.prems(1-5), of lower p]
  from st(1) Cons.prems(1,2) have l: "ra < length ?h1" "ua < length ?h1" by simp_all
  from st(3) mi have cr: "cellAt ?h1 ra = Some (ReplArray reps1)" by simp
  from st(4) mi have cu: "cellAt ?h1 ua = Some (SpanArray used1)" by simp
  from Cons.prems(6) have ps: "\<forall>q \<in> set ps. q \<noteq> ra \<and> q \<noteq> ua" by simp
  have same: "map (itemAt ?h1) ps = map (itemAt h) ps"
    using st(2) ps by (auto intro: itemAt_cong)
  from Cons.IH [OF l Cons.prems(3) cr cu ps] st(1) show ?case
    by (simp add: mi same)
qed

lemma actionableOf_alt:
  "actionableOf rs
   = filter (\<lambda>r. status r \<in> set [''VERIFIED'', ''CONTRADICTED'', ''CONTESTED''])
       (map itemOfResult (enumerate 0 rs))"
  by (simp add: actionableOf_def itemOfResult_def)

lemma annotateChairmanTextSt_refines:
  "fst (annotateChairmanTextSt h doc stage25opt)
   = annotateChairmanText doc (map_option (\<lambda>a. map (resultAt h) (refsAt h a)) stage25opt)"
proof (cases stage25opt)
  case None
  then show ?thesis by (simp add: annotateChairmanTextSt_def annotateChairmanText_def)
next
  case (Some a)
  define rs where "rs = map (resultAt h) (refsAt h a)"
  obtain m h1 where m: "mapWithOriginalIdx h a = (m, h1)" by force
  obtain act h2 where f: "filterActionableItems h1 m = (act, h2)" by force
  define h3 where "h3 = sortItemsInPlace h2 act"
  define h5 where "h5 = h3 @ [ReplArray [], SpanArray []]"
  define ra where "ra = length h3"
  define ua where "ua = Suc ra"
  define lower where "lower = toLowerCase doc"
  define h6 where "h6 = foldl (matchItemSt lower ra ua) h5 (refsAt h5 act)"
  note mi = mapWithOriginalIdx_items [OF m]
  from mi(2,3) have lt1: "\<forall>p \<in> set (refsAt h1 m). p < length h1" by auto
  note fi = filterActionableItems_items [OF f lt1]
  from fi(2,3) have al: "act < length h2" by simp
  note si = sortItemsInPlace_items [OF al fi(4), folded h3_def]
  have items2: "map (itemAt h2) (refsAt h2 act) = actionableOf rs"
    by (simp add: fi(1) mi(1) actionableOf_alt rs_def)
  have items3: "map (itemAt h3) (refsAt h3 act) = sortByClaimLength (actionableOf rs)"
    by (simp add: si(1) items2)
  have al3: "act < length h3" using al si(3) by simp
  have lt3: "\<forall>p \<in> set (refsAt h3 act). p < length h3"
    using si(2) fi(4) al3 by auto
  have refs5: "refsAt h5 act = refsAt h3 act"
    using al3 by (simp add: refsAt_def h5_def cellAt_append)
  have items5: "map (itemAt h5) (refsAt h5 act) = sortByClaimLength (actionableOf rs)"
  proof -
    have "itemAt h5 p = itemAt h3 p" if "p \<in> set (refsAt h3 act)" for p
      using that lt3 by (intro itemAt_cong) (simp add: h5_def cellAt_append)
    then show ?thesis by (simp add: refs5 flip: items3)
  qed
  have "cellAt h6 ra
          = Some (ReplArray (fst (foldl (matchItem lower) ([], []) (map (itemAt h5) (refsAt h5 act)))))
        \<and> length h6 = length h5"
    unfolding h6_def
  proof (rule foldl_matchItemSt_refines)
    show "ra < length h5" "ua < length h5" "ra \<noteq> ua"
      by (simp_all add: ra_def ua_def h5_def)
    show "cellAt h5 ra = Some (ReplArray [])"
      by (simp add: cellAt_def h5_def ra_def nth_append)
    show "cellAt h5 ua = Some (SpanArray [])"
      by (simp add: cellAt_def h5_def ua_def ra_def nth_append)
    show "\<forall>p \<in> set (refsAt h5 act). p \<noteq> ra \<and> p \<noteq> ua"
      using lt3 by (auto simp: refs5 ra_def ua_def)
  qed
  then have c6: "cellAt h6 ra = Some (ReplArray (fst (matchLoop doc (sortByClaimLength (actionableOf rs)))))"
    and l6: "ra < length h6"
    unfolding items5 by (simp_all add: matchLoop_def lower_def ra_def h5_def)
  from c6 have r6: "replsAt h6 ra = fst (matchLoop doc (sortByClaimLength (actionableOf rs)))"
    by (simp add: replsAt_def)
  have r7: "replsAt (sortReplacementsInPlace h6 ra) ra = sortByStartDesc (replsAt h6 ra)"
    using l6 by (simp add: sortReplacementsInPlace_def replsAt_def cellAt_update)
  have len0: "length (refsAt h a) = length rs" by (simp add: rs_def)
  have len2: "length (refsAt h2 act) = length (actionableOf rs)"
    using items2 by (metis length_map)
  have unfold: "annotateChairmanTextSt h doc (Some a) =
     (if length (refsAt h a) = 0 then (doc, h)
      else if length (refsAt h2 act) = 0 then (doc, h2)
      else if length (replsAt h6 ra) = 0 then (doc, h6)
      else (foldl applyReplacement doc (replsAt (sortReplacementsInPlace h6 ra) ra),
            sortReplacementsInPlace h6 ra))"
    by (simp add: annotateChairmanTextSt_def m f Let_def alloc_def h3_def [symmetric]
        ra_def [symmetric] ua_def [symmetric] h5_def [symmetric] lower_def [symmetric]
        h6_def [symmetric])
  show ?thesis
    unfolding Some unfold option.map annotateChairmanText_def option.case rs_def [symmetric]
      len0 len2 r7 r6 Let_def
    by simp
qed

lemma preserves_cellAt: "preserves h g \<Longrightarrow> p < length h \<Longrightarrow> cellAt g p = cellAt h p"
  by (simp add: preserves_def)

lemma preserves_validEntry:
  assumes "preserves h g" and "validEntry h p"
  shows "entryAt g p = entryAt h p" and "claimsOfEntry g p = claimsOfEntry h p"
    and "entryOf g p = entryOf h p"
proof -
  from assms have e: "cellAt g p = cellAt h p" by (simp add: preserves_cellAt validEntry_def)
  then show ea: "entryAt g p = entryAt h p" by (simp add: entryAt_def)
  have s: "strsAt g fa = strsAt h fa" if "ec_factual_claims (entryAt h p) = Some fa" for fa
  proof -
    from that assms(2) have "fa < length h" by (simp add: validEntry_def)
    with assms(1) have "cellAt g fa = cellAt h fa" by (rule preserves_cellAt)
    then show ?thesis by (simp add: strsAt_def)
  qed
  show "claimsOfEntry g p = claimsOfEntry h p"
    by (cases "ec_factual_claims (entryAt h p)") (simp_all add: claimsOfEntry_def ea s)
  show "entryOf g p = entryOf h p"
    by (cases "ec_factual_claims (entryAt h p)") (simp_all add: entryOf_def ea s)
qed

lemma foldl_allocClaims_result:
  assumes "preserves h g" and "\<forall>p \<in> set ps. validEntry h p"
  shows "foldl allocClaims (sofar, g) ps
         = (sofar @ [length g ..< length g + length ps],
            g @ map (\<lambda>p. StrArray (claimsOfEntry h p)) ps)"
  using assms
proof (induction ps arbitrary: sofar g)
  case Nil
  then show ?case by simp
next
  case (Cons p ps)
  from Cons.prems have v: "validEntry h p" and vs: "\<forall>q \<in> set ps. validEntry h q" by simp_all
  have step: "allocClaims (sofar, g) p = (sofar @ [length g], g @ [StrArray (claimsOfEntry h p)])"
    using preserves_validEntry(2) [OF Cons.prems(1) v]
    by (simp add: allocClaims_def alloc_def Let_def claimsOfEntry_def)
  have p': "preserves h (g @ [StrArray (claimsOfEntry h p)])"
    using Cons.prems(1) by (rule preserves_append)
  have "[length g ..< length g + length (p # ps)]
        = length g # [Suc (length g) ..< Suc (length g) + length ps]"
    by (subst upt_rec) simp
  with Cons.IH [OF p' vs, of "sofar @ [length g]"] show ?case
    by (simp add: step)
qed

lemma strsAt_alloc_StrArray: "strsAt (h @ [StrArray xs]) (length h) = xs"
  by (simp add: strsAt_def cellAt_def)

lemma numsAt_alloc_NumArray: "numsAt (h @ [NumArray xs]) (length h) = xs"
  by (simp add: numsAt_def cellAt_def)

lemma refsAt_alloc_RefArray: "refsAt (h @ [RefArray xs]) (length h) = xs"
  by (simp add: refsAt_def cellAt_def)

lemma strsAt_append_old: "a < length h \<Longrightarrow> strsAt (h @ xs) a = strsAt h a"
  by (simp add: strsAt_def cellAt_append)

lemma refsAt_append_old: "a < length h \<Longrightarrow> refsAt (h @ xs) a = refsAt h a"
  by (simp add: refsAt_def cellAt_append)

lemma confidencesOf_entries:
  "map the (filter (\<lambda>v. v \<noteq> None) (map (\<lambda>p. ec_confidence (entryAt h p)) ps))
   = confidencesOf (map (entryOf h) ps)"
  by (simp add: confidencesOf_def entryOf_def comp_def)

lemma allClaimsOf_entries: "allClaimsOf (map (entryOf h) ps) = map (claimsOfEntry h) ps"
proof -
  have "(case factual_claims (entryOf h p) of None \<Rightarrow> [] | Some cs \<Rightarrow> map normalize cs)
        = claimsOfEntry h p" for p
    by (cases "ec_factual_claims (entryAt h p)") (simp_all add: entryOf_def claimsOfEntry_def)
  then show ?thesis by (simp add: allClaimsOf_def comp_def)
qed

lemma factualConsensusSt_unfold:
  assumes "a < length h" and "\<forall>p \<in> set (refsAt h a). validEntry h p"
  shows "fst (factualConsensusSt h (Some a)) = factualConsensus (Some (map (entryOf h) (refsAt h a)))"
proof -
  define es where "es = refsAt h a"
  define entries where "entries = map (entryOf h) es"
  define c1 where "c1 = NumArray (map (\<lambda>p. ec_confidence (entryAt h p)) es)"
  define h1 where "h1 = h @ [c1]"
  define c2 where "c2 = NumArray (filter (\<lambda>v. v \<noteq> None) (numsAt h1 (length h)))"
  define h2 where "h2 = h1 @ [c2]"
  define lists where "lists = [length h2 ..< length h2 + length es]"
  define h3 where "h3 = h2 @ map (\<lambda>p. StrArray (claimsOfEntry h p)) es"
  define h4 where "h4 = h3 @ [RefArray lists]"
  define c5 where "c5 = StrArray (concat (map (strsAt h4) (refsAt h4 (length h3))))"
  define h5 where "h5 = h4 @ [c5]"
  define c6 where "c6 = StrArray (uniqueOf (strsAt h5 (length h4)))"
  define h6 where "h6 = h5 @ [c6]"
  define c7 where "c7 = StrArray (filter (\<lambda>c. 2 \<le> length (filter (\<lambda>q. c \<in> set (strsAt h6 q))
      (refsAt h6 (length h3)))) (strsAt h6 (length h5)))"
  define h7 where "h7 = h6 @ [c7]"
  have n1: "numsAt h1 (length h) = map (\<lambda>p. ec_confidence (entryAt h p)) es"
    by (simp add: h1_def c1_def numsAt_alloc_NumArray)
  have n2: "numsAt h2 (length h1) = filter (\<lambda>v. v \<noteq> None) (map (\<lambda>p. ec_confidence (entryAt h p)) es)"
    by (simp add: h2_def c2_def numsAt_alloc_NumArray n1)
  have cs: "map the (numsAt h2 (length h1)) = confidencesOf entries"
    unfolding n2 entries_def by (rule confidencesOf_entries)
  have p2: "preserves h h2"
    unfolding h2_def h1_def by (intro preserves_append preserves_refl)
  have r2: "refsAt h2 a = es"
    using assms(1) by (simp add: h2_def h1_def refsAt_append_old es_def)
  have fold: "foldl allocClaims ([], h2) (refsAt h2 a) = (lists, h3)"
    unfolding r2 using foldl_allocClaims_result [OF p2, of es "[]"] assms(2)
    by (simp add: es_def lists_def h3_def)
  have refs4: "refsAt h4 (length h3) = lists"
    by (simp add: h4_def refsAt_alloc_RefArray)
  have strs3: "map (strsAt h3) lists = map (claimsOfEntry h) es"
  proof (rule nth_equalityI)
    show "length (map (strsAt h3) lists) = length (map (claimsOfEntry h) es)"
      by (simp add: lists_def)
  next
    fix i assume "i < length (map (strsAt h3) lists)"
    then have i: "i < length es" by (simp add: lists_def)
    then have "strsAt h3 (length h2 + i) = claimsOfEntry h (es ! i)"
      by (simp add: strsAt_def cellAt_def h3_def nth_append)
    with i show "map (strsAt h3) lists ! i = map (claimsOfEntry h) es ! i"
      by (simp add: lists_def)
  qed
  have lt3: "\<forall>q \<in> set lists. q < length h3"
    by (simp add: lists_def h3_def)
  have strs4: "map (strsAt h4) lists = allClaimsOf entries"
  proof -
    have "map (strsAt h4) lists = map (strsAt h3) lists"
      using lt3 by (simp add: h4_def strsAt_append_old)
    then show ?thesis by (simp add: strs3 entries_def allClaimsOf_entries)
  qed
  have every: "list_all (\<lambda>q. length (strsAt h4 q) = 0) lists
      = list_all (\<lambda>l. length l = 0) (allClaimsOf entries)"
    by (simp add: list_all_iff flip: strs4)
  have flat: "strsAt h5 (length h4) = concat (allClaimsOf entries)"
    by (simp add: h5_def c5_def strsAt_alloc_StrArray refs4 strs4)
  have uniq: "strsAt h6 (length h5) = uniqueOf (concat (allClaimsOf entries))"
    by (simp add: h6_def c6_def strsAt_alloc_StrArray flat)
  have refs6: "refsAt h6 (length h3) = lists"
    by (simp add: h6_def h5_def h4_def refsAt_def cellAt_def nth_append)
  have strs6: "map (strsAt h6) lists = allClaimsOf entries"
  proof -
    have "strsAt h6 q = strsAt h4 q" if "q \<in> set lists" for q
      using that lt3 by (simp add: h6_def h5_def h4_def strsAt_append_old)
    then have "map (strsAt h6) lists = map (strsAt h4) lists" by simp
    then show ?thesis by (simp add: strs4)
  qed
  have cnt: "length (filter (\<lambda>q. c \<in> set (strsAt h6 q)) lists)
      = length (filter (\<lambda>l. c \<in> set l) (allClaimsOf entries))" for c
  proof -
    have "length (filter (\<lambda>l. c \<in> set l) (map (strsAt h6) lists))
        = length (filter (\<lambda>q. c \<in> set (strsAt h6 q)) lists)"
      by (simp add: filter_map comp_def)
    then show ?thesis by (simp add: strs6)
  qed
  have over: "strsAt h7 (length h6)
      = overlappingOf (allClaimsOf entries) (uniqueOf (concat (allClaimsOf entries)))"
    by (simp add: h7_def c7_def strsAt_alloc_StrArray refs6 cnt uniq overlappingOf_def)
  have uniq7: "strsAt h7 (length h5) = uniqueOf (concat (allClaimsOf entries))"
    by (simp add: h7_def h6_def c6_def strsAt_def cellAt_def nth_append flat [unfolded strsAt_def cellAt_def])
  have len: "(length (refsAt h a) = 0) = (length entries = 0)"
    by (simp add: entries_def es_def)
  have len': "(es = []) = (entries = [])"
    by (simp add: entries_def)
  have unfold: "fst (factualConsensusSt h (Some a)) =
    (if length (refsAt h a) = 0 then ''Unknown''
     else
       let cs = map the (numsAt h2 (length h1));
           avgConf = (if length cs > 0
                      then Some (real_of_int (foldl (\<lambda>sum v. sum + v) 0 cs) / real (length cs))
                      else None)
       in if avgConf \<noteq> None \<and> the avgConf < 50 then ''Uncertain''
          else if list_all (\<lambda>q. length (strsAt h4 q) = 0) (refsAt h4 (length h3)) then
            (if avgConf \<noteq> None \<and> the avgConf \<ge> 65 then ''Consensus'' else ''Split'')
          else
            let overlapRatio = real (length (strsAt h7 (length h6))) / real (length (strsAt h7 (length h5)))
            in if overlapRatio \<ge> 0.5 \<and> avgConf \<noteq> None \<and> the avgConf \<ge> 65 then ''Consensus''
               else if avgConf \<noteq> None \<and> the avgConf < 55 then ''Uncertain''
               else ''Split'')"
    unfolding factualConsensusSt_def option.case alloc_def Let_def prod.case
      es_def [symmetric] c1_def [symmetric] h1_def [symmetric] c2_def [symmetric]
      h2_def [symmetric] fold
      h4_def [symmetric] c5_def [symmetric] h5_def [symmetric] c6_def [symmetric]
      h6_def [symmetric] c7_def [symmetric] h7_def [symmetric]
    by (simp add: if_distrib [of fst] cong: if_cong)
  show ?thesis
    unfolding unfold factualConsensus_def option.case len cs refs4 every over uniq7 avgConfOf_def
      entries_def [symmetric] es_def [symmetric] Let_def
    by (simp add: len')
qed

lemma resultAt_actionable_valid:
  assumes "isActionable (resultAt h p)"
  shows "p < length h"
proof (rule ccontr)
  assume "\<not> p < length h"
  then have "status (resultAt h p) = []"
    by (simp add: resultAt_def cellAt_def)
  with assms show False by (simp add: isActionable_def)
qed

lemma externalEvidenceSt_refines:
  "fst (externalEvidenceSt h stage25opt)
   = externalEvidence (map_option (\<lambda>a. map (resultAt h) (refsAt h a)) stage25opt)"
proof (cases stage25opt)
  case None
  then show ?thesis by (simp add: externalEvidenceSt_def externalEvidence_def)
next
  case (Some a)
  define ps where "ps = refsAt h a"
  define keep where "keep = filter (\<lambda>p. isActionable (resultAt h p)) ps"
  define h1 where "h1 = h @ [RefArray keep]"
  have refs: "refsAt h1 (length h) = keep"
    by (simp add: h1_def refsAt_alloc_RefArray)
  have same: "resultAt h1 p = resultAt h p" if "p \<in> set keep" for p
  proof -
    from that have "p < length h" by (auto simp: keep_def intro: resultAt_actionable_valid)
    then show ?thesis by (simp add: resultAt_def h1_def cellAt_append)
  qed
  have ex: "list_ex (\<lambda>p. status (resultAt h p) = ''CONTRADICTED'') ps
      = list_ex (\<lambda>r. status r = ''CONTRADICTED'') (map (resultAt h) ps)"
    by (simp add: list_ex_iff)
  have keepmap: "map (resultAt h) keep = filter isActionable (map (resultAt h) ps)"
    by (simp add: keep_def filter_map comp_def)
  have len: "length keep = length (filter isActionable (map (resultAt h) ps))"
    using keepmap by (metis length_map)
  have "list_all (\<lambda>p. status (resultAt h1 p) = ''VERIFIED'') keep
      = list_all (\<lambda>r. status r = ''VERIFIED'') (map (resultAt h) keep)"
    using same by (auto simp: list_all_iff)
  then have allv: "list_all (\<lambda>p. status (resultAt h1 p) = ''VERIFIED'') keep
      = list_all (\<lambda>r. status r = ''VERIFIED'') (filter isActionable (map (resultAt h) ps))"
    by (simp add: keepmap)
  have unfold: "fst (externalEvidenceSt h (Some a)) =
     (if length ps > 0 then
        if list_ex (\<lambda>p. status (resultAt h p) = ''CONTRADICTED'') ps then Some ''Disputed''
        else if length (refsAt h1 (length h)) > 0
                \<and> list_all (\<lambda>p. status (resultAt h1 p) = ''VERIFIED'') (refsAt h1 (length h))
             then Some ''Verified'' else None
      else None)"
    by (simp add: externalEvidenceSt_def alloc_def Let_def ps_def [symmetric] keep_def [symmetric]
        h1_def [symmetric])
  show ?thesis
    unfolding Some unfold refs ex allv len option.map externalEvidence_def option.case Let_def
      ps_def [symmetric]
    by simp
qed

lemma calcVerdictSt_refines:
  assumes "validStage1 h stage1"
  shows "fst (calcVerdictSt h stage25 stage1)
         = calcVerdict (map_option (\<lambda>a. map (resultAt h) (refsAt h a)) stage25)
             (map_option (\<lambda>a. map (entryOf h) (refsAt h a)) stage1)"
proof -
  obtain v h1 where e: "externalEvidenceSt h stage25 = (v, h1)" by force
  from externalEvidenceSt_refines [of h stage25] e
  have v: "externalEvidence (map_option (\<lambda>a. map (resultAt h) (refsAt h a)) stage25) = v"
    by simp
  from externalEvidenceSt_frame [OF preserves_refl, of h stage25] e
  have p1: "preserves h h1" by simp
  show ?thesis
  proof (cases v)
    case (Some x)
    with e v show ?thesis by (simp add: calcVerdictSt_def calcVerdict_def)
  next
    case None
    have "fst (factualConsensusSt h1 stage1)
        = factualConsensus (map_option (\<lambda>a. map (entryOf h) (refsAt h a)) stage1)"
    proof (cases stage1)
      case None
      then show ?thesis by (simp add: factualConsensusSt_def factualConsensus_def)
    next
      case (Some a)
      with assms have a: "a < length h" and va: "\<forall>p \<in> set (refsAt h a). validEntry h p"
        by (simp_all add: validStage1_def)
      from preserves_cellAt [OF p1 a] have refs: "refsAt h1 a = refsAt h a"
        by (simp add: refsAt_def)
      from a preserves_length [OF p1] have a1: "a < length h1" by simp
      have valid1: "validEntry h1 p" if "p \<in> set (refsAt h a)" for p
      proof -
        from that va have vp: "validEntry h p" by simp
        from preserves_validEntry(1) [OF p1 vp] vp preserves_length [OF p1] show ?thesis
          by (auto simp: validEntry_def split: option.splits)
      qed
      have same: "map (entryOf h1) (refsAt h a) = map (entryOf h) (refsAt h a)"
        using va by (simp add: preserves_validEntry(3) [OF p1])
      from factualConsensusSt_unfold [OF a1, unfolded refs] valid1 same Some show ?thesis
        by simp
    qed
    with None e v show ?thesis by (simp add: calcVerdictSt_def calcVerdict_def)
  qed
qed

lemma catStore_results: "map (resultAt catStore) (refsAt catStore 5) = catResults"
  by (simp add: catStore_def catResults_def refsAt_def resultAt_def cellAt_def)

section \<open>Claims about the verdict\<close>

text \<open>
  Claim C1. A list of verification results that holds a result with status \<open>CONTRADICTED\<close>
  (which makes it non-empty) gives the verdict \<open>Disputed\<close>, whatever the other results and
  whatever the Stage 1 argument.
\<close>

theorem calcVerdict_contradicted_disputed:
  assumes "r \<in> set stage25" and "status r = ''CONTRADICTED''"
  shows "calcVerdict (Some stage25) stage1 = ''Disputed''"
proof -
  from assms have ex: "list_ex (\<lambda>r. status r = ''CONTRADICTED'') stage25"
    unfolding list_ex_iff by blast
  from assms(1) have ne: "length stage25 > 0" by (cases stage25) auto
  show ?thesis
    unfolding calcVerdict_def externalEvidence_def using ex ne by simp
qed

text \<open>One \<open>CONTRADICTED\<close> among otherwise \<open>VERIFIED\<close> results, with no Stage 1 list.\<close>

theorem calcVerdict_contradicted_disputed_witness:
  "\<lparr>claim = ''b'', status = ''CONTRADICTED''\<rparr> \<in> set oneContradicted
   \<and> calcVerdict (Some oneContradicted) None = ''Disputed''"
proof -
  have h1: "\<lparr>claim = ''b'', status = ''CONTRADICTED''\<rparr> \<in> set oneContradicted"
    by (simp add: oneContradicted_def)
  have h2: "status \<lparr>claim = ''b'', status = ''CONTRADICTED''\<rparr> = ''CONTRADICTED''"
    by simp
  from h1 calcVerdict_contradicted_disputed [OF h1 h2, of None] show ?thesis
    by (rule conjI)
qed

text \<open>
  Claim C2. A non-empty list of verification results without a \<open>CONTRADICTED\<close> result, with at
  least one actionable result and every actionable result \<open>VERIFIED\<close>, gives the verdict
  \<open>Verified\<close>, whatever the Stage 1 argument.
\<close>

theorem calcVerdict_all_verified:
  assumes "stage25 \<noteq> []"
    and "\<forall>r \<in> set stage25. status r \<noteq> ''CONTRADICTED''"
    and "\<exists>r \<in> set stage25. isActionable r"
    and "\<forall>r \<in> set stage25. isActionable r \<longrightarrow> status r = ''VERIFIED''"
  shows "calcVerdict (Some stage25) stage1 = ''Verified''"
proof -
  from assms(2) have nex: "\<not> list_ex (\<lambda>r. status r = ''CONTRADICTED'') stage25"
    unfolding list_ex_iff by blast
  from assms(1) have ne: "length stage25 > 0" by simp
  from assms(3) have act: "length (filter isActionable stage25) > 0"
    by (simp add: filter_empty_conv)
  from assms(4) have allv: "list_all (\<lambda>r. status r = ''VERIFIED'') (filter isActionable stage25)"
    unfolding list_all_iff by simp
  show ?thesis
    unfolding calcVerdict_def externalEvidence_def using nex ne act allv by (simp add: Let_def)
qed

text \<open>One \<open>VERIFIED\<close> and one \<open>UNVERIFIABLE\<close> result.\<close>

theorem calcVerdict_all_verified_witness:
  "calcVerdict (Some verifiedAndUnverifiable) (Some []) = ''Verified''"
proof -
  have h0: "verifiedAndUnverifiable \<noteq> []"
    by (simp add: verifiedAndUnverifiable_def)
  have h1: "\<forall>r \<in> set verifiedAndUnverifiable. status r \<noteq> ''CONTRADICTED''"
    by (simp add: verifiedAndUnverifiable_def)
  have h2: "\<exists>r \<in> set verifiedAndUnverifiable. isActionable r"
    by (simp add: verifiedAndUnverifiable_def isActionable_def)
  have h3: "\<forall>r \<in> set verifiedAndUnverifiable. isActionable r \<longrightarrow> status r = ''VERIFIED''"
    by (simp add: verifiedAndUnverifiable_def isActionable_def)
  show ?thesis by (rule calcVerdict_all_verified [OF h0 h1 h2 h3])
qed








text \<open>
  Claim C10. On entries without \<open>factual_claims\<close> and without \<open>confidence\<close>, of any length and so
  of length at least 2, \<open>calcPeerAlignment\<close> returns \<open>Unknown\<close>; the components pass the
  aggregate rankings, whose entries carry \<open>model\<close> and \<open>average_rank\<close> only, so the label they
  show is always \<open>Unknown\<close>.
\<close>

theorem calcPeerAlignment_rankings_unknown:
  "((\<forall>r \<in> set rs. factual_claims r = None \<and> confidence r = None) \<longrightarrow>
      calcPeerAlignment (Some rs) = ''Unknown'')
   \<and> peerAlignmentShown aggregateRankings = ''Unknown''"
proof -
  have main: "calcPeerAlignment (Some xs) = ''Unknown''"
    if h: "\<forall>r \<in> set xs. factual_claims r = None \<and> confidence r = None" for xs
  proof -
    have a: "concat (allClaimsOf xs) = []"
      using h by (simp add: allClaimsOf_def)
    have c: "confidencesOf xs = []"
      using h by (simp add: confidencesOf_def filter_empty_conv)
    show ?thesis
      unfolding calcPeerAlignment_def by (simp add: a c uniqueOf_def Let_def)
  qed
  have "peerAlignmentShown aggregateRankings = ''Unknown''"
  proof (cases aggregateRankings)
    case None
    then show ?thesis by (simp add: peerAlignmentShown_def calcPeerAlignment_def)
  next
    case (Some ars)
    have "\<forall>r \<in> set (map rankingAsEntry ars). factual_claims r = None \<and> confidence r = None"
      by (simp add: rankingAsEntry_def)
    from main [OF this] Some show ?thesis by (simp add: peerAlignmentShown_def)
  qed
  with main show ?thesis by blast
qed

text \<open>Two aggregate-ranking entries.\<close>

theorem calcPeerAlignment_rankings_unknown_witness:
  "2 \<le> length rankingEntries \<and> calcPeerAlignment (Some rankingEntries) = ''Unknown''"
proof -
  have h: "\<forall>r \<in> set rankingEntries. factual_claims r = None \<and> confidence r = None"
    by (simp add: rankingEntries_def)
  have l: "2 \<le> length rankingEntries"
    by (simp add: rankingEntries_def)
  from calcPeerAlignment_rankings_unknown [of rankingEntries None] h l show ?thesis
    by simp
qed

section \<open>Claims about the annotation\<close>





section \<open>Claim about the Phase 0 flow\<close>



section \<open>Claim about what the calls leave unchanged\<close>

text \<open>
  Claim C9. After a call of \<open>calcVerdict\<close> or of \<open>annotateChairmanText\<close>, every cell that the store held
  before the call (the verification-result array, its elements, the Stage 1 array, its elements
  and their claim arrays) is unchanged: the calls allocate, and \<open>sort\<close> and \<open>push\<close> change only
  arrays allocated during the call.  The response text is a string, an immutable value.  The
  results of the calls over the store are those of the functions on the values the store holds.
\<close>

theorem calls_leave_inputs_unchanged:
  "preserves h (snd (calcVerdictSt h stage25 stage1))
   \<and> preserves h (snd (annotateChairmanTextSt h doc stage25))
   \<and> fst (annotateChairmanTextSt h doc stage25)
       = annotateChairmanText doc (map_option (\<lambda>a. map (resultAt h) (refsAt h a)) stage25)
   \<and> (validStage1 h stage1 \<longrightarrow>
        fst (calcVerdictSt h stage25 stage1)
        = calcVerdict (map_option (\<lambda>a. map (resultAt h) (refsAt h a)) stage25)
            (map_option (\<lambda>a. map (entryOf h) (refsAt h a)) stage1))"
  using calcVerdictSt_frame [of h stage25 stage1] annotateChairmanTextSt_frame [of h doc stage25]
    annotateChairmanTextSt_refines [of h doc stage25] calcVerdictSt_refines [of h stage1 stage25]
  by blast

text \<open>
  The input arrays and an element of the example store after each call, and the results of the
  calls.
\<close>

theorem calls_leave_inputs_unchanged_witness:
  "cellAt (snd (annotateChairmanTextSt catStore catText (Some 5))) 5 = Some (RefArray [0, 1, 2, 3, 4])
   \<and> cellAt (snd (annotateChairmanTextSt catStore catText (Some 5))) 2
       = Some (ResultObj \<lparr>claim = ''the cat sat on the mat'', status = ''CONTRADICTED''\<rparr>)
   \<and> cellAt (snd (calcVerdictSt catStore (Some 5) (Some 9))) 9 = Some (RefArray [7, 8])
   \<and> cellAt (snd (calcVerdictSt catStore (Some 5) (Some 9))) 5 = Some (RefArray [0, 1, 2, 3, 4])
   \<and> fst (annotateChairmanTextSt catStore catText (Some 5))
       = annotateChairmanText catText (Some catResults)
   \<and> validStage1 catStore (Some 9)
   \<and> fst (calcVerdictSt catStore (Some 5) (Some 9)) = ''Disputed''"
proof -
  note t = calls_leave_inputs_unchanged [of catStore "Some 5" "Some 9" catText]
  have l: "length catStore = 10" by (simp add: catStore_def)
  from t have "\<forall>a < 10. cellAt (snd (annotateChairmanTextSt catStore catText (Some 5))) a
      = cellAt catStore a"
    and "\<forall>a < 10. cellAt (snd (calcVerdictSt catStore (Some 5) (Some 9))) a = cellAt catStore a"
    by (simp_all add: preserves_def l)
  then have "cellAt (snd (annotateChairmanTextSt catStore catText (Some 5))) 5 = cellAt catStore 5"
    and "cellAt (snd (annotateChairmanTextSt catStore catText (Some 5))) 2 = cellAt catStore 2"
    and "cellAt (snd (calcVerdictSt catStore (Some 5) (Some 9))) 9 = cellAt catStore 9"
    and "cellAt (snd (calcVerdictSt catStore (Some 5) (Some 9))) 5 = cellAt catStore 5"
    by simp_all
  moreover have "cellAt catStore 5 = Some (RefArray [0, 1, 2, 3, 4])"
    and "cellAt catStore 2
       = Some (ResultObj \<lparr>claim = ''the cat sat on the mat'', status = ''CONTRADICTED''\<rparr>)"
    and "cellAt catStore 9 = Some (RefArray [7, 8])"
    by (simp_all add: catStore_def cellAt_def)
  moreover from t have "fst (annotateChairmanTextSt catStore catText (Some 5))
       = annotateChairmanText catText (Some catResults)"
    by (simp add: catStore_results)
  moreover have v: "validStage1 catStore (Some 9)"
    by (simp add: validStage1_def validEntry_def catStore_def refsAt_def entryAt_def cellAt_def)
  moreover have "calcVerdict (Some catResults) s1 = ''Disputed''" for s1
    by (simp add: calcVerdict_def externalEvidence_def catResults_def)
  with t v have "fst (calcVerdictSt catStore (Some 5) (Some 9)) = ''Disputed''"
    by (simp add: catStore_results)
  ultimately show ?thesis by simp
qed

end
